theory Spec2Isabelle
  imports Complex_Main "HOL-Library.Sublist" "HOL-Library.Char_ord" "HOL-Library.List_Lexorder"
    "HOL-Library.Multiset"
begin

section \<open>Values and string helpers\<close>

text \<open>
  The configuration documents, the exemption rule file and the token file are all read with
  \<^verbatim>\<open>json.load\<close>, so the values the program handles are JSON values. Numbers are
  restricted to integers (floating point numbers are not modelled), strings are lists of
  8-bit characters read as code points, and an object is the list of its items in insertion
  order, as \<^verbatim>\<open>dict.items()\<close> enumerates them.
\<close>

datatype json =
    JNull
  | JBool bool
  | JInt int
  | JStr string
  | JList "json list"
  | JObj "(string \<times> json) list"

text \<open>The exceptions the modelled code can raise on JSON values.\<close>

datatype exn = AttributeError | TypeError

text \<open>
  \<^verbatim>\<open>str.strip()\<close> removes leading and trailing whitespace; below code point 256 the
  whitespace characters are 9 to 13, 28 to 32, 133 and 160.
\<close>

definition is_space :: "char \<Rightarrow> bool" where
  "is_space c = (of_char c \<in> {9, 10, 11, 12, 13, 28, 29, 30, 31, 32, 133, 160 :: nat})"

definition strip :: "string \<Rightarrow> string" where
  "strip s = rev (dropWhile is_space (rev (dropWhile is_space s)))"

definition startswith :: "string \<Rightarrow> string \<Rightarrow> bool" where
  "startswith s p = (take (length p) s = p)"

definition is_list :: "json \<Rightarrow> bool" where
  "is_list v = (case v of JList _ \<Rightarrow> True | _ \<Rightarrow> False)"

definition is_dict :: "json \<Rightarrow> bool" where
  "is_dict v = (case v of JObj _ \<Rightarrow> True | _ \<Rightarrow> False)"

definition is_str :: "json \<Rightarrow> bool" where
  "is_str v = (case v of JStr _ \<Rightarrow> True | _ \<Rightarrow> False)"

section \<open>The exemption filter (main.py, apply\_exemptions)\<close>

text \<open>
  \<^verbatim>\<open>fnmatch.fnmatch(name, pattern)\<close> belongs to the Python library, not to the
  repository: the filter takes it as a parameter \<open>fnmatch\<close>, a predicate on two strings.
  The library function raises TypeError when the pattern is not a string; that check is part
  of the model below.
\<close>

type_synonym matcher = "string \<Rightarrow> string \<Rightarrow> bool"

text \<open>
  A concrete matcher for evaluating the filter on examples: shell-style matching for
  patterns built from literal characters, \<open>*\<close> (any sequence) and \<open>?\<close> (any one
  character), case-sensitive. Bracket classes are not interpreted; the examples use no
  bracket.
\<close>

fun glob :: "string \<Rightarrow> string \<Rightarrow> bool" where
  "glob [] [] = True"
| "glob (c # cs) [] = False"
| "glob [] (p # ps) = (p = CHR ''*'' \<and> glob [] ps)"
| "glob (c # cs) (p # ps) =
     (if p = CHR ''*'' then glob (c # cs) ps \<or> glob cs (p # ps)
      else (p = CHR ''?'' \<or> p = c) \<and> glob cs ps)"

text \<open>
  Lines 47 to 55: the scan of the rule set for a header line, in the order of
  \<^verbatim>\<open>exemption_rules.items()\<close>, leaving at the first pattern that matches. The result
  is the pair (in\_fully\_exempt\_block, current\_line\_exemptions) after the scan; both were
  reset (False, empty) before it.
\<close>

fun match_block :: "matcher \<Rightarrow> string \<Rightarrow> (string \<times> json) list \<Rightarrow> bool \<times> json list" where
  "match_block fnmatch line [] = (False, [])"
| "match_block fnmatch line ((block_pattern, rules) # others) =
     (if fnmatch line block_pattern then
        (if rules = JStr ''*'' then (True, [])
         else (case rules of JList ps \<Rightarrow> (False, ps) | _ \<Rightarrow> (False, [])))
      else match_block fnmatch line others)"

text \<open>
  Lines 61 to 66: whether the stripped line matches one of the active line patterns. The
  scan stops at the first match; a pattern that is not a string makes the library raise
  TypeError when the scan reaches it.
\<close>

fun line_exempt :: "matcher \<Rightarrow> string \<Rightarrow> json list \<Rightarrow> exn + bool" where
  "line_exempt fnmatch name [] = Inr False"
| "line_exempt fnmatch name (line_pattern # others) =
     (case line_pattern of
        JStr pat \<Rightarrow> if fnmatch name pat then Inr True else line_exempt fnmatch name others
      | _ \<Rightarrow> Inl TypeError)"

text \<open>
  The loop state: the lines kept so far, the flag in\_fully\_exempt\_block and the active
  line patterns current\_line\_exemptions.
\<close>

type_synonym filter_state = "json list \<times> bool \<times> json list"

text \<open>
  Lines 35 to 72: one iteration of the loop. A line that is not a string has neither
  \<^verbatim>\<open>strip\<close> nor \<^verbatim>\<open>startswith\<close>: AttributeError.
\<close>

definition loop_body :: "matcher \<Rightarrow> (string \<times> json) list \<Rightarrow> filter_state \<Rightarrow> json \<Rightarrow> exn + filter_state" where
  "loop_body fnmatch exemption_rules st l =
     (case st of (filtered_config, in_fully_exempt_block, current_line_exemptions) \<Rightarrow>
      (case l of
         JStr line \<Rightarrow>
           if in_fully_exempt_block then
             Inr (filtered_config, strip line \<noteq> ''!'', current_line_exemptions)
           else
             (case (if \<not> startswith line '' '' then match_block fnmatch line exemption_rules
                    else (False, current_line_exemptions)) of
                (True, exemptions) \<Rightarrow> Inr (filtered_config, True, exemptions)
              | (False, exemptions) \<Rightarrow>
                  (case line_exempt fnmatch (strip line) exemptions of
                     Inl e \<Rightarrow> Inl e
                   | Inr True \<Rightarrow> Inr (filtered_config, False, exemptions)
                   | Inr False \<Rightarrow> Inr (filtered_config @ [l], False, exemptions)))
       | _ \<Rightarrow> Inl AttributeError))"

text \<open>Line 34: the loop over the lines, left at the first exception.\<close>

fun exempt_loop :: "matcher \<Rightarrow> (string \<times> json) list \<Rightarrow> filter_state \<Rightarrow> json list \<Rightarrow> exn + filter_state" where
  "exempt_loop fnmatch exemption_rules st [] = Inr st"
| "exempt_loop fnmatch exemption_rules st (l # rest) =
     (case loop_body fnmatch exemption_rules st l of
        Inl e \<Rightarrow> Inl e
      | Inr st' \<Rightarrow> exempt_loop fnmatch exemption_rules st' rest)"

text \<open>
  Lines 27 to 74: the type guard, the loop from the initial state, and the kept lines as
  the result.
\<close>

definition apply_exemptions :: "matcher \<Rightarrow> json \<Rightarrow> json \<Rightarrow> exn + json" where
  "apply_exemptions fnmatch config_list exemption_rules =
     (if \<not> is_list config_list \<or> \<not> is_dict exemption_rules then Inr config_list
      else
        (case (config_list, exemption_rules) of
           (JList ls, JObj rules) \<Rightarrow>
             (case exempt_loop fnmatch rules ([], False, []) ls of
                Inl e \<Rightarrow> Inl e
              | Inr (filtered_config, _, _) \<Rightarrow> Inr (JList filtered_config))
         | _ \<Rightarrow> Inr config_list))"

text \<open>
  Input typing used by the statements below: every entry of the rule set that is a list
  holds strings only (the rule file maps a header pattern to \<open>"*"\<close> or to an array of
  line patterns).
\<close>

definition str_patterns :: "(string \<times> json) list \<Rightarrow> bool" where
  "str_patterns rs =
     list_all (\<lambda>(p, v). case v of JList ps \<Rightarrow> list_all is_str ps | _ \<Rightarrow> True) rs"

text \<open>
  A header line that its own rule removes: it is a header, the first entry matching it is a
  list, and the stripped header matches a pattern of that list.
\<close>

definition self_exempt :: "matcher \<Rightarrow> (string \<times> json) list \<Rightarrow> string \<Rightarrow> bool" where
  "self_exempt fnmatch rs line =
     (\<not> startswith line '' '' \<and>
      (case match_block fnmatch line rs of
         (True, _) \<Rightarrow> False
       | (False, ps) \<Rightarrow> line_exempt fnmatch (strip line) ps = Inr True))"

text \<open>
  A document whose block terminators are followed by headers: every line that strips to
  \<open>!\<close> is the last line or is followed by a line with no leading space.
\<close>

fun terminators_precede_headers :: "string list \<Rightarrow> bool" where
  "terminators_precede_headers [] = True"
| "terminators_precede_headers (l # rest) =
     ((strip l = ''!'' \<longrightarrow> (case rest of [] \<Rightarrow> True | n # _ \<Rightarrow> \<not> startswith n '' ''))
      \<and> terminators_precede_headers rest)"

text \<open>
  A second pass from a state that is not inside an exempt block keeps every line of
  \<open>ys\<close>, whatever was kept before.
\<close>

definition kept_again :: "matcher \<Rightarrow> (string \<times> json) list \<Rightarrow> json list \<Rightarrow> json list \<Rightarrow> bool" where
  "kept_again fm rs cur ys =
     (\<forall>acc. \<exists>ex2 cur2. exempt_loop fm rs (acc, False, cur) ys = Inr (acc @ ys, ex2, cur2))"

section \<open>The comparison (main.py, compare\_configs)\<close>

text \<open>
  Line 81 compares the two parsed documents with Python's \<^verbatim>\<open>==\<close>: \<open>None\<close> equals only
  itself, a bool equals the integer 0 or 1 it stands for, lists are compared element by
  element, and two dicts are equal when they have the same number of keys and every key of
  the first is a key of the second with an equal value (insertion order plays no part).
\<close>

fun py_eq :: "json \<Rightarrow> json \<Rightarrow> bool"
  and py_eq_list :: "json list \<Rightarrow> json list \<Rightarrow> bool"
  and py_eq_items :: "(string \<times> json) list \<Rightarrow> (string \<times> json) list \<Rightarrow> bool" where
  "py_eq JNull b = (b = JNull)"
| "py_eq (JBool x) b =
     (case b of JBool y \<Rightarrow> x = y | JInt n \<Rightarrow> n = (if x then 1 else 0) | _ \<Rightarrow> False)"
| "py_eq (JInt m) b =
     (case b of JInt n \<Rightarrow> m = n | JBool y \<Rightarrow> m = (if y then 1 else 0) | _ \<Rightarrow> False)"
| "py_eq (JStr s) b = (b = JStr s)"
| "py_eq (JList xs) b = (case b of JList ys \<Rightarrow> py_eq_list xs ys | _ \<Rightarrow> False)"
| "py_eq (JObj xs) b =
     (case b of JObj ys \<Rightarrow> length xs = length ys \<and> py_eq_items xs ys | _ \<Rightarrow> False)"
| "py_eq_list [] ys = (ys = [])"
| "py_eq_list (x # xs) ys =
     (case ys of [] \<Rightarrow> False | y # ys' \<Rightarrow> py_eq x y \<and> py_eq_list xs ys')"
| "py_eq_items [] ys = True"
| "py_eq_items ((k, v) # xs) ys =
     ((case map_of ys k of None \<Rightarrow> False | Some w \<Rightarrow> py_eq v w) \<and> py_eq_items xs ys)"

text \<open>
  Lines 87 and 88: \<^verbatim>\<open>json.dumps(config, indent=2, sort_keys=True).splitlines()\<close>. The
  serialiser is library code; the model builds the lines of its output directly. Strings
  are written between double quotes with \<^verbatim>\<open>"\<close> and \<^verbatim>\<open>\\<close> escaped and every character
  outside the printable ASCII range written as an escape, so a line break occurs only
  between the items of a list or dict. Items are separated by a comma at the end of the
  line, dict items are ordered by key, and each nesting level indents by two spaces.
\<close>

definition hex_digit :: "nat \<Rightarrow> char" where
  "hex_digit n = (''0123456789abcdef'') ! (n mod 16)"

definition escape_char :: "char \<Rightarrow> string" where
  "escape_char c =
     (if c = CHR 0x22 then [CHR 0x5C, CHR 0x22]
      else if c = CHR 0x5C then [CHR 0x5C, CHR 0x5C]
      else if c = CHR 0x0A then [CHR 0x5C, CHR ''n'']
      else if c = CHR 0x0D then [CHR 0x5C, CHR ''r'']
      else if c = CHR 0x09 then [CHR 0x5C, CHR ''t'']
      else if c = CHR 0x08 then [CHR 0x5C, CHR ''b'']
      else if c = CHR 0x0C then [CHR 0x5C, CHR ''f'']
      else if 32 \<le> (of_char c :: nat) \<and> (of_char c :: nat) \<le> 126 then [c]
      else [CHR 0x5C, CHR ''u'', CHR ''0'', CHR ''0'',
            hex_digit (of_char c div 16), hex_digit (of_char c)])"

definition encode_str :: "string \<Rightarrow> string" where
  "encode_str s = [CHR 0x22] @ concat (map escape_char s) @ [CHR 0x22]"

fun digits :: "nat \<Rightarrow> string" where
  "digits n = (if n < 10 then [hex_digit n] else digits (n div 10) @ [hex_digit (n mod 10)])"

definition str_int :: "int \<Rightarrow> string" where
  "str_int i = (if i < 0 then CHR ''-'' # digits (nat (- i)) else digits (nat i))"

definition pad :: "nat \<Rightarrow> string" where
  "pad level = replicate (2 * level) CHR '' ''"

text \<open>Prefix the first line of an item; put a comma at the end of an item's last line.\<close>

definition prefix_first :: "string \<Rightarrow> string list \<Rightarrow> string list" where
  "prefix_first p ls = (case ls of [] \<Rightarrow> [p] | l # rest \<Rightarrow> (p @ l) # rest)"

definition with_comma :: "string list \<Rightarrow> string list" where
  "with_comma ls = (case rev ls of [] \<Rightarrow> [] | l # tser \<Rightarrow> rev tser @ [l @ '',''])"

fun join_items :: "string list list \<Rightarrow> string list" where
  "join_items [] = []"
| "join_items [c] = c"
| "join_items (c # d # others) = with_comma c @ join_items (d # others)"

fun dumps_lines :: "nat \<Rightarrow> json \<Rightarrow> string list" where
  "dumps_lines level JNull = [''null'']"
| "dumps_lines level (JBool b) = [if b then ''true'' else ''false'']"
| "dumps_lines level (JInt i) = [str_int i]"
| "dumps_lines level (JStr s) = [encode_str s]"
| "dumps_lines level (JList xs) =
     (if xs = [] then [''[]'']
      else [''[''] @
           join_items (map (\<lambda>x. prefix_first (pad (Suc level)) (dumps_lines (Suc level) x)) xs) @
           [pad level @ '']''])"
| "dumps_lines level (JObj kvs) =
     (if kvs = [] then [''{}'']
      else [''{''] @
           join_items (map (\<lambda>kv. prefix_first (pad (Suc level) @ encode_str (fst kv) @ '': '')
                                   (dumps_lines (Suc level) (snd kv)))
                           (sort_key fst kvs)) @
           [pad level @ ''}''])"

text \<open>
  Line 89: \<^verbatim>\<open>difflib.unified_diff(a, b, fromfile, tofile, lineterm='')\<close>. The diff is
  library code (Python's difflib); the definitions below follow the library's algorithm
  step by step, with its defaults: no junk predicate, autojunk on, three lines of context.

  \<^verbatim>\<open>__chain_b\<close>: \<open>b2j\<close> maps a line to the ascending list of its positions in \<open>b\<close>. When
  \<open>b\<close> has 200 lines or more, a line that occurs more than \<open>len(b) // 100 + 1\<close> times is
  popular and gets no entry.
\<close>

definition popular :: "string list \<Rightarrow> string \<Rightarrow> bool" where
  "popular b elt = (200 \<le> length b \<and> length b div 100 + 1 < count_list b elt)"

definition b2j :: "string list \<Rightarrow> string \<Rightarrow> nat list" where
  "b2j b elt = (if popular b elt then [] else filter (\<lambda>j. b ! j = elt) [0..<length b])"

text \<open>
  \<^verbatim>\<open>find_longest_match\<close>. A match is the triple (besti, bestj, bestsize). The inner loop
  runs over the positions \<open>j\<close> of \<open>a[i]\<close> in \<open>b\<close>; \<open>j2len\<close> holds, for the previous row,
  the length of the match ending at each \<open>j\<close> (a missing key reads as 0, and so does the
  key \<open>j - 1\<close> for \<open>j = 0\<close>).
\<close>

type_synonym match = "nat \<times> nat \<times> nat"

fun scan_row :: "nat \<Rightarrow> nat \<Rightarrow> nat \<Rightarrow> (nat \<Rightarrow> nat) \<Rightarrow> nat list \<Rightarrow> match \<times> (nat \<Rightarrow> nat) \<Rightarrow> match \<times> (nat \<Rightarrow> nat)" where
  "scan_row i blo bhi j2len [] st = st"
| "scan_row i blo bhi j2len (j # js) (best, newj2len) =
     (if j < blo then scan_row i blo bhi j2len js (best, newj2len)
      else if bhi \<le> j then (best, newj2len)
      else
        (let k = (if j = 0 then 0 else j2len (j - 1)) + 1 in
         scan_row i blo bhi j2len js
           (if snd (snd best) < k then (Suc i - k, Suc j - k, k) else best, newj2len(j := k))))"

function scan_rows :: "string list \<Rightarrow> string list \<Rightarrow> nat \<Rightarrow> nat \<Rightarrow> nat \<Rightarrow> nat \<Rightarrow> match \<times> (nat \<Rightarrow> nat) \<Rightarrow> match" where
  "scan_rows a b ahi blo bhi i (best, j2len) =
     (if i < ahi
      then scan_rows a b ahi blo bhi (Suc i)
             (scan_row i blo bhi j2len (b2j b (a ! i)) (best, \<lambda>j. 0))
      else best)"
  by pat_completeness auto
termination
  by (relation "measure (\<lambda>(a, b, ahi, blo, bhi, i, st). ahi - i)") auto

text \<open>
  The two loops that extend the best match by equal lines on each end (popular lines
  included). The library's last two loops extend by junk lines; there is no junk here.
\<close>

function extend_left :: "string list \<Rightarrow> string list \<Rightarrow> nat \<Rightarrow> nat \<Rightarrow> match \<Rightarrow> match" where
  "extend_left a b alo blo (besti, bestj, bestsize) =
     (if alo < besti \<and> blo < bestj \<and> a ! (besti - 1) = b ! (bestj - 1)
      then extend_left a b alo blo (besti - 1, bestj - 1, bestsize + 1)
      else (besti, bestj, bestsize))"
  by pat_completeness auto
termination
  by (relation "measure (\<lambda>(a, b, alo, blo, besti, bestj, bestsize). besti)") auto

function extend_right :: "string list \<Rightarrow> string list \<Rightarrow> nat \<Rightarrow> nat \<Rightarrow> match \<Rightarrow> match" where
  "extend_right a b ahi bhi (besti, bestj, bestsize) =
     (if besti + bestsize < ahi \<and> bestj + bestsize < bhi
         \<and> a ! (besti + bestsize) = b ! (bestj + bestsize)
      then extend_right a b ahi bhi (besti, bestj, bestsize + 1)
      else (besti, bestj, bestsize))"
  by pat_completeness auto
termination
  by (relation "measure (\<lambda>(a, b, ahi, bhi, besti, bestj, bestsize). ahi - (besti + bestsize))") auto

declare scan_rows.simps [simp del] extend_left.simps [simp del] extend_right.simps [simp del]

definition find_longest_match :: "string list \<Rightarrow> string list \<Rightarrow> nat \<Rightarrow> nat \<Rightarrow> nat \<Rightarrow> nat \<Rightarrow> match" where
  "find_longest_match a b alo ahi blo bhi =
     extend_right a b ahi bhi
       (extend_left a b alo blo
          (scan_rows a b ahi blo bhi alo ((alo, blo, 0), \<lambda>j. 0)))"

text \<open>
  \<^verbatim>\<open>get_matching_blocks\<close>. The library keeps a work list of windows and sorts the blocks
  found at the end; the recursion below visits the same windows and lists the blocks in
  that sorted order (left window, block, right window). Its termination is proved further
  down, from the bounds of \<open>find_longest_match\<close>.
\<close>

function block_list :: "string list \<Rightarrow> string list \<Rightarrow> nat \<Rightarrow> nat \<Rightarrow> nat \<Rightarrow> nat \<Rightarrow> match list" where
  "block_list a b alo ahi blo bhi =
     (case find_longest_match a b alo ahi blo bhi of
        (i, j, k) \<Rightarrow>
          if k = 0 then []
          else (if alo < i \<and> blo < j then block_list a b alo i blo j else []) @
               [(i, j, k)] @
               (if i + k < ahi \<and> j + k < bhi then block_list a b (i + k) ahi (j + k) bhi
                else []))"
  by pat_completeness auto

text \<open>Adjacent blocks are collapsed, and a sentinel of size 0 ends the list.\<close>

fun collapse :: "match \<Rightarrow> match list \<Rightarrow> match list" where
  "collapse (i1, j1, k1) [] = (if k1 \<noteq> 0 then [(i1, j1, k1)] else [])"
| "collapse (i1, j1, k1) ((i2, j2, k2) # rest) =
     (if i1 + k1 = i2 \<and> j1 + k1 = j2 then collapse (i1, j1, k1 + k2) rest
      else (if k1 \<noteq> 0 then [(i1, j1, k1)] else []) @ collapse (i2, j2, k2) rest)"

definition get_matching_blocks :: "string list \<Rightarrow> string list \<Rightarrow> match list" where
  "get_matching_blocks a b =
     collapse (0, 0, 0) (block_list a b 0 (length a) 0 (length b)) @ [(length a, length b, 0)]"

text \<open>\<^verbatim>\<open>get_opcodes\<close>: an opcode is (tag, i1, i2, j1, j2).\<close>

datatype tag = Replace | Delete | Insert | Equal

type_synonym opcode = "tag \<times> nat \<times> nat \<times> nat \<times> nat"

fun opcodes_from :: "nat \<Rightarrow> nat \<Rightarrow> match list \<Rightarrow> opcode list" where
  "opcodes_from i j [] = []"
| "opcodes_from i j ((ai, bj, sz) # rest) =
     (if i < ai \<and> j < bj then [(Replace, i, ai, j, bj)]
      else if i < ai then [(Delete, i, ai, j, bj)]
      else if j < bj then [(Insert, i, ai, j, bj)]
      else []) @
     (if sz \<noteq> 0 then [(Equal, ai, ai + sz, bj, bj + sz)] else []) @
     opcodes_from (ai + sz) (bj + sz) rest"

definition get_opcodes :: "string list \<Rightarrow> string list \<Rightarrow> opcode list" where
  "get_opcodes a b = opcodes_from 0 0 (get_matching_blocks a b)"

text \<open>
  \<^verbatim>\<open>get_grouped_opcodes(n)\<close>: the leading and the trailing equal range are cut to \<open>n\<close>
  lines, and an equal range longer than \<open>2 * n\<close> ends one group and starts the next. A
  last group that holds a single equal opcode is not given out.
\<close>

definition fix_first :: "nat \<Rightarrow> opcode list \<Rightarrow> opcode list" where
  "fix_first n codes =
     (case codes of
        (Equal, i1, i2, j1, j2) # rest \<Rightarrow> (Equal, max i1 (i2 - n), i2, max j1 (j2 - n), j2) # rest
      | _ \<Rightarrow> codes)"

definition fix_last :: "nat \<Rightarrow> opcode list \<Rightarrow> opcode list" where
  "fix_last n codes =
     (case rev codes of
        (Equal, i1, i2, j1, j2) # tser \<Rightarrow>
          rev tser @ [(Equal, i1, min i2 (i1 + n), j1, min j2 (j1 + n))]
      | _ \<Rightarrow> codes)"

fun group_loop :: "nat \<Rightarrow> opcode list \<Rightarrow> opcode list \<Rightarrow> opcode list list" where
  "group_loop n grp [] =
     (if grp \<noteq> [] \<and> \<not> (length grp = 1 \<and> fst (hd grp) = Equal) then [grp] else [])"
| "group_loop n grp ((tag, i1, i2, j1, j2) # codes) =
     (if tag = Equal \<and> n + n < i2 - i1
      then (grp @ [(tag, i1, min i2 (i1 + n), j1, min j2 (j1 + n))]) #
           group_loop n [(tag, max i1 (i2 - n), i2, max j1 (j2 - n), j2)] codes
      else group_loop n (grp @ [(tag, i1, i2, j1, j2)]) codes)"

definition get_grouped_opcodes :: "string list \<Rightarrow> string list \<Rightarrow> nat \<Rightarrow> opcode list list" where
  "get_grouped_opcodes a b n =
     (let codes = get_opcodes a b;
          codes = (if codes = [] then [(Equal, 0, 1, 0, 1)] else codes)
      in group_loop n [] (fix_last n (fix_first n codes)))"

text \<open>
  \<^verbatim>\<open>unified_diff\<close>: the two file header lines before the first grp, then for each grp
  its hunk marker and its lines. \<open>slice xs i1 i2\<close> is \<^verbatim>\<open>xs[i1:i2]\<close>.
\<close>

definition slice :: "'a list \<Rightarrow> nat \<Rightarrow> nat \<Rightarrow> 'a list" where
  "slice xs i1 i2 = take (i2 - i1) (drop i1 xs)"

definition format_range_unified :: "nat \<Rightarrow> nat \<Rightarrow> string" where
  "format_range_unified start stop =
     (let beginning = start + 1; len = stop - start in
      if len = 1 then digits beginning
      else digits (if len = 0 then beginning - 1 else beginning) @ '','' @ digits len)"

definition opcode_lines :: "string list \<Rightarrow> string list \<Rightarrow> opcode \<Rightarrow> string list" where
  "opcode_lines a b code =
     (case code of (tag, i1, i2, j1, j2) \<Rightarrow>
        if tag = Equal then map ((#) CHR '' '') (slice a i1 i2)
        else (if tag = Replace \<or> tag = Delete then map ((#) CHR ''-'') (slice a i1 i2) else []) @
             (if tag = Replace \<or> tag = Insert then map ((#) CHR ''+'') (slice b j1 j2) else []))"

definition hunk :: "string list \<Rightarrow> string list \<Rightarrow> opcode list \<Rightarrow> string list" where
  "hunk a b grp =
     (case (hd grp, last grp) of
        ((_, first1, _, first3, _), (_, _, last2, _, last4)) \<Rightarrow>
          (''@@ -'' @ format_range_unified first1 last2 @ '' +'' @
           format_range_unified first3 last4 @ '' @@'') #
          concat (map (opcode_lines a b) grp))"

definition unified_diff :: "string list \<Rightarrow> string list \<Rightarrow> string \<Rightarrow> string \<Rightarrow> string list" where
  "unified_diff a b fromfile tofile =
     (let groups = get_grouped_opcodes a b 3 in
      if groups = [] then []
      else [''--- '' @ fromfile, ''+++ '' @ tofile] @ concat (map (hunk a b) groups))"

text \<open>Lines 91 and 92: the two counts taken over the lines of the diff.\<close>

definition count_additions :: "string list \<Rightarrow> nat" where
  "count_additions diff =
     length (filter (\<lambda>line. startswith line ''+'' \<and> \<not> startswith line ''+++'') diff)"

definition count_removals :: "string list \<Rightarrow> nat" where
  "count_removals diff =
     length (filter (\<lambda>line. startswith line ''-'' \<and> \<not> startswith line ''---'') diff)"

text \<open>
  What \<^verbatim>\<open>compare_configs\<close> reports. \<open>Match\<close>: the match message is printed and False
  is returned. \<open>Mismatch\<close>: True is returned; the listing holds the diff lines printed
  (none in simplified mode), followed by the two counts of the summary.
\<close>

datatype report = Match | Mismatch (listing: "string list") (lines_added: nat) (lines_removed: nat)

definition compare_configs :: "json \<Rightarrow> json \<Rightarrow> bool \<Rightarrow> string \<Rightarrow> string \<Rightarrow> report" where
  "compare_configs config_a config_b simplified from_file to_file =
     (if py_eq config_a config_b then Match
      else
        (let config_a_str = dumps_lines 0 config_a;
             config_b_str = dumps_lines 0 config_b;
             diff = unified_diff config_a_str config_b_str from_file to_file;
             additions = count_additions diff;
             removals = count_removals diff
         in Mismatch (if simplified then [] else diff) additions removals))"

text \<open>
  A Python dict has each key once: in a well-formed value the keys of every object are
  distinct.
\<close>

fun dict_ok :: "json \<Rightarrow> bool"
  and dict_ok_list :: "json list \<Rightarrow> bool"
  and dict_ok_items :: "(string \<times> json) list \<Rightarrow> bool" where
  "dict_ok JNull = True"
| "dict_ok (JBool b) = True"
| "dict_ok (JInt i) = True"
| "dict_ok (JStr s) = True"
| "dict_ok (JList xs) = dict_ok_list xs"
| "dict_ok (JObj kvs) = (distinct (map fst kvs) \<and> dict_ok_items kvs)"
| "dict_ok_list [] = True"
| "dict_ok_list (x # xs) = (dict_ok x \<and> dict_ok_list xs)"
| "dict_ok_items [] = True"
| "dict_ok_items ((k, v) # kvs) = (dict_ok v \<and> dict_ok_items kvs)"

text \<open>
  Two representations of one document: the same value, up to the insertion order of the
  keys of its objects at any depth.
\<close>

inductive reordered :: "json \<Rightarrow> json \<Rightarrow> bool" where
  same: "reordered a a"
| in_list: "list_all2 reordered xs ys \<Longrightarrow> reordered (JList xs) (JList ys)"
| in_dict: "list_all2 (\<lambda>kv kw. fst kv = fst kw \<and> reordered (snd kv) (snd kw)) xs zs \<Longrightarrow>
            mset ys = mset zs \<Longrightarrow> reordered (JObj xs) (JObj ys)"


text \<open>
  The invariant of the search for the longest match in a window: an empty match sits at the
  window's origin, a non-empty one lies inside the window.
\<close>

definition in_window :: "nat \<Rightarrow> nat \<Rightarrow> nat \<Rightarrow> nat \<Rightarrow> match \<Rightarrow> bool" where
  "in_window alo ahi blo bhi m =
     (case m of (i, j, k) \<Rightarrow>
        alo \<le> i \<and> blo \<le> j \<and> (if k = 0 then i = alo \<and> j = blo else i + k \<le> ahi \<and> j + k \<le> bhi))"


definition matched :: "match list \<Rightarrow> nat" where
  "matched blocks = sum_list (map (\<lambda>m. snd (snd m)) blocks)"

text \<open>The number of lines of \<open>a\<close> that a list of opcodes removes, and of \<open>b\<close> that it adds.\<close>

definition removed_by :: "string list \<Rightarrow> opcode list \<Rightarrow> nat" where
  "removed_by a codes =
     sum_list (map (\<lambda>(tag, i1, i2, j1, j2).
       if tag = Replace \<or> tag = Delete then length (slice a i1 i2) else 0) codes)"

definition added_by :: "string list \<Rightarrow> opcode list \<Rightarrow> nat" where
  "added_by b codes =
     sum_list (map (\<lambda>(tag, i1, i2, j1, j2).
       if tag = Replace \<or> tag = Insert then length (slice b j1 j2) else 0) codes)"

section \<open>The token lifecycle (aruba\_central\_api.py)\<close>

text \<open>
  The token file holds the record written by \<^verbatim>\<open>_save_token_data\<close>. A field is
  \<open>None\<close> when its key is absent or null; the strings are opaque. Time is a real number
  of seconds (the rounding of floating point numbers is not modelled).
\<close>

record token_data =
  access_token :: "string option"
  refresh_token :: "string option"
  timestamp :: "real option"
  stored_client_id :: "string option"
  stored_client_secret :: "string option"

text \<open>The attributes of \<^verbatim>\<open>self\<close> read from the environment.\<close>

record api =
  base_url :: "string option"
  client_id :: "string option"
  client_secret :: "string option"

text \<open>
  The answer of \<^verbatim>\<open>requests.post\<close> followed by \<^verbatim>\<open>raise_for_status\<close> and
  \<^verbatim>\<open>json()\<close>: a \<^verbatim>\<open>RequestException\<close> (transport or HTTP error), or the JSON object of
  the token response, of which the fields \<^verbatim>\<open>access_token\<close> and \<^verbatim>\<open>refresh_token\<close> are
  read.
\<close>

datatype response =
    RequestException
  | TokenResponse (resp_access_token: "string option") (resp_refresh_token: "string option")

text \<open>
  The transport is a capability outside the repository: a parameter that maps the URL, the
  form data and the time of the call to the answer and the time at which the call returns.
\<close>

type_synonym payload = "(string \<times> string option) list"
type_synonym transport = "string \<Rightarrow> payload \<Rightarrow> real \<Rightarrow> response \<times> real"

text \<open>
  The world a call runs in: the content of the token file (\<open>None\<close> when the file is
  missing or is not JSON), the clock read by \<^verbatim>\<open>time.time()\<close>, and the requests posted
  so far, in order.
\<close>

record world =
  token_file :: "token_data option"
  clock :: real
  posted :: "(string \<times> payload) list"

text \<open>Python truthiness of an optional string, and of an optional number.\<close>

definition truthy :: "string option \<Rightarrow> bool" where
  "truthy s = (case s of None \<Rightarrow> False | Some x \<Rightarrow> x \<noteq> [])"

definition truthy_num :: "real option \<Rightarrow> bool" where
  "truthy_num t = (case t of None \<Rightarrow> False | Some x \<Rightarrow> x \<noteq> 0)"

text \<open>An f-string prints \<open>None\<close> for a missing value.\<close>

definition py_str :: "string option \<Rightarrow> string" where
  "py_str s = (case s of None \<Rightarrow> ''None'' | Some x \<Rightarrow> x)"

definition token_url :: "api \<Rightarrow> string" where
  "token_url self = py_str (base_url self) @ ''/oauth2/token''"

text \<open>Lines 67 to 73: a missing or unreadable file loads as the empty dict.\<close>

definition load_token_data :: "world \<Rightarrow> token_data" where
  "load_token_data w =
     (case token_file w of
        None \<Rightarrow> \<lparr>access_token = None, refresh_token = None, timestamp = None,
                  stored_client_id = None, stored_client_secret = None\<rparr>
      | Some d \<Rightarrow> d)"

text \<open>Lines 75 to 85.\<close>

definition save_token_data :: "api \<Rightarrow> response \<Rightarrow> world \<Rightarrow> world" where
  "save_token_data self token_response w =
     w\<lparr>token_file := Some
         \<lparr>access_token = resp_access_token token_response,
          refresh_token = resp_refresh_token token_response,
          timestamp = Some (clock w),
          stored_client_id = client_id self,
          stored_client_secret = client_secret self\<rparr>\<rparr>"

text \<open>Lines 111 to 115 and 90 to 96: the form data of the two exchanges.\<close>

definition reissue_payload :: "api \<Rightarrow> payload" where
  "reissue_payload self =
     [(''grant_type'', Some ''client_credentials''),
      (''client_id'', client_id self),
      (''client_secret'', client_secret self)]"

definition refresh_payload :: "api \<Rightarrow> string \<Rightarrow> payload" where
  "refresh_payload self token =
     [(''grant_type'', Some ''refresh_token''), (''refresh_token'', Some token)] @
     (if truthy (client_id self) \<and> truthy (client_secret self)
      then [(''client_id'', client_id self), (''client_secret'', client_secret self)]
      else [])"

text \<open>One POST: the request is logged and the clock moves to the time of the answer.\<close>

definition post_request :: "transport \<Rightarrow> string \<Rightarrow> payload \<Rightarrow> world \<Rightarrow> response \<times> world" where
  "post_request post url data w =
     (case post url data (clock w) of
        (r, t) \<Rightarrow> (r, w\<lparr>clock := t, posted := posted w @ [(url, data)]\<rparr>))"

text \<open>
  Lines 108 to 124, \<^verbatim>\<open>_authenticate_new_token\<close>. The result is the access token of the
  response, or \<open>None\<close> after a failed exchange.
\<close>

definition authenticate_new_token :: "transport \<Rightarrow> api \<Rightarrow> world \<Rightarrow> string option \<times> world" where
  "authenticate_new_token post self w =
     (case post_request post (token_url self) (reissue_payload self) w of
        (RequestException, w') \<Rightarrow> (None, w')
      | (token_response, w') \<Rightarrow>
          (resp_access_token token_response, save_token_data self token_response w'))"

text \<open>Lines 87 to 106, \<^verbatim>\<open>_refresh_token\<close>.\<close>

definition refresh_token_exchange :: "transport \<Rightarrow> api \<Rightarrow> string \<Rightarrow> world \<Rightarrow> string option \<times> world" where
  "refresh_token_exchange post self token w =
     (case post_request post (token_url self) (refresh_payload self token) w of
        (RequestException, w') \<Rightarrow> authenticate_new_token post self w'
      | (token_response, w') \<Rightarrow>
          (resp_access_token token_response, save_token_data self token_response w'))"

text \<open>
  The clock and the stored timestamp are double precision floating point numbers, modelled
  as the real numbers they denote. Line 45 subtracts them in double precision: the age is
  the rounded difference, which is the exact difference only when that is a double itself.
  Double subtraction is a parameter \<open>fsub\<close> of the model; the comparison of the age with
  the integer 7200 is exact.
\<close>

type_synonym float_sub = "real \<Rightarrow> real \<Rightarrow> real"

text \<open>Lines 34 to 65, \<^verbatim>\<open>_get_access_token\<close>.\<close>

definition get_access_token ::
  "float_sub \<Rightarrow> transport \<Rightarrow> api \<Rightarrow> world \<Rightarrow> string option \<times> world" where
  "get_access_token fsub post self w =
     (let token_data = load_token_data w in
      if truthy (access_token token_data) \<and> truthy_num (timestamp token_data) \<and>
         fsub (clock w) (case timestamp token_data of None \<Rightarrow> 0 | Some t \<Rightarrow> t) < 7200
      then (access_token token_data, w)
      else if truthy (refresh_token token_data)
      then refresh_token_exchange post self
             (case refresh_token token_data of None \<Rightarrow> [] | Some token \<Rightarrow> token) w
      else if \<not> truthy (client_id self) \<or> \<not> truthy (client_secret self) then (None, w)
      else authenticate_new_token post self w)"

section \<open>Properties of the exemption filter\<close>

subsection \<open>The loop body, case by case\<close>

lemma loop_body_exempt:
  "loop_body fm rs (acc, True, cur) (JStr l) = Inr (acc, strip l \<noteq> ''!'', cur)"
  by (simp add: loop_body_def)

lemma loop_body_header:
  "\<not> startswith l '' '' \<Longrightarrow>
   loop_body fm rs (acc, False, cur) (JStr l) =
     (case match_block fm l rs of
        (True, e) \<Rightarrow> Inr (acc, True, e)
      | (False, e) \<Rightarrow>
          (case line_exempt fm (strip l) e of
             Inl x \<Rightarrow> Inl x
           | Inr b \<Rightarrow> Inr (if b then acc else acc @ [JStr l], False, e)))"
  by (auto simp add: loop_body_def split: prod.splits sum.splits bool.splits)

lemma loop_body_inner:
  "startswith l '' '' \<Longrightarrow>
   loop_body fm rs (acc, False, cur) (JStr l) =
     (case line_exempt fm (strip l) cur of
        Inl x \<Rightarrow> Inl x
      | Inr b \<Rightarrow> Inr (if b then acc else acc @ [JStr l], False, cur))"
  by (auto simp add: loop_body_def split: prod.splits sum.splits bool.splits)

lemma loop_body_keeps:
  "loop_body fm rs (acc, ex, cur) l = Inr (acc', ex', cur') \<Longrightarrow> acc' = acc \<or> acc' = acc @ [l]"
  by (auto simp add: loop_body_def split: json.splits if_splits prod.splits sum.splits bool.splits)

lemma match_block_str:
  "str_patterns rs \<Longrightarrow> list_all is_str (snd (match_block fm line rs))"
  by (induction rs) (auto simp add: str_patterns_def split: json.splits)

lemma line_exempt_str:
  "list_all is_str ps \<Longrightarrow>
   line_exempt fm name ps = Inr (list_ex (\<lambda>p. \<exists>s. p = JStr s \<and> fm name s) ps)"
  by (induction ps) (auto simp add: is_str_def split: json.splits)

lemma line_exempt_map:
  "line_exempt fm name (map JStr pats) = Inr (list_ex (fm name) pats)"
  by (induction pats) auto

lemma match_block_first:
  "list_all (\<lambda>(q, w). \<not> fm line q) pre \<Longrightarrow>
   match_block fm line (pre @ others) = match_block fm line others"
  by (induction pre) auto

subsection \<open>The kept lines are a subsequence of the input\<close>

lemma exempt_loop_subseq:
  "exempt_loop fm rs (acc, ex, cur) ls = Inr (acc', ex', cur') \<Longrightarrow>
   \<exists>ys. acc' = acc @ ys \<and> subseq ys ls"
proof (induction ls arbitrary: acc ex cur)
  case Nil
  then show ?case by simp
next
  case (Cons l ls)
  from Cons.prems obtain a1 e1 c1 where
    step: "loop_body fm rs (acc, ex, cur) l = Inr (a1, e1, c1)" and
    rest: "exempt_loop fm rs (a1, e1, c1) ls = Inr (acc', ex', cur')"
    by (auto split: sum.splits)
  from Cons.IH [OF rest] obtain ys where ys: "acc' = a1 @ ys" "subseq ys ls" by blast
  from loop_body_keeps [OF step] show ?case
  proof
    assume "a1 = acc"
    with ys show ?thesis by (intro exI [of _ ys]) auto
  next
    assume "a1 = acc @ [l]"
    with ys show ?thesis by (intro exI [of _ "l # ys"]) simp
  qed
qed

lemma subseq_of_map:
  "subseq zs (map f d) \<Longrightarrow> \<exists>ys. zs = map f ys \<and> subseq ys d"
proof (induction d arbitrary: zs)
  case Nil
  then show ?case by (cases zs) auto
next
  case (Cons a d)
  show ?case
  proof (cases zs)
    case Nil
    then show ?thesis by simp
  next
    case (Cons z zs')
    show ?thesis
    proof (cases "z = f a")
      case True
      with Cons Cons.prems have "subseq zs' (map f d)" by simp
      from Cons.IH [OF this] obtain ys where "zs' = map f ys" "subseq ys d" by blast
      with True Cons show ?thesis by (intro exI [of _ "a # ys"]) simp
    next
      case False
      with Cons Cons.prems have "subseq zs (map f d)" by simp
      from Cons.IH [OF this] obtain ys where "zs = map f ys" "subseq ys d" by blast
      then show ?thesis by (intro exI [of _ ys]) auto
    qed
  qed
qed

lemma exempt_loop_total:
  "list_all is_str cur \<Longrightarrow> str_patterns rs \<Longrightarrow>
   \<exists>st. exempt_loop fm rs (acc, ex, cur) (map JStr d) = Inr st"
proof (induction d arbitrary: acc ex cur)
  case Nil
  then show ?case by simp
next
  case (Cons l d)
  show ?case
  proof (cases ex)
    case True
    then show ?thesis using Cons by (simp add: loop_body_exempt)
  next
    case False
    show ?thesis
    proof (cases "startswith l '' ''")
      case True
      with False Cons show ?thesis
        by (simp add: loop_body_inner line_exempt_str)
    next
      case hdr: False
      obtain b e where mb: "match_block fm l rs = (b, e)" by (cases "match_block fm l rs")
      with match_block_str [OF Cons.prems(2), of fm l] have e: "list_all is_str e" by simp
      from hdr False mb e Cons show ?thesis
        by (cases b) (simp_all add: loop_body_header line_exempt_str)
    qed
  qed
qed

lemma apply_exemptions_lines:
  "apply_exemptions fm (JList ls) (JObj rs) =
     (case exempt_loop fm rs ([], False, []) ls of
        Inl e \<Rightarrow> Inl e
      | Inr (filtered_config, _, _) \<Rightarrow> Inr (JList filtered_config))"
  by (simp add: apply_exemptions_def is_list_def is_dict_def)

text \<open>
  Claim C9. For a list of lines and a rule set (list entries holding strings), the filter
  returns, and what it returns is a list of the input's own lines in the input's order: a
  subsequence of the input. Nothing is added, rewritten or reordered.
\<close>

theorem apply_exemptions_subsequence:
  "str_patterns rs \<Longrightarrow>
   \<exists>ys. apply_exemptions fm (JList (map JStr d)) (JObj rs) = Inr (JList (map JStr ys))
        \<and> subseq ys d"
proof -
  assume typed: "str_patterns rs"
  have "list_all is_str []" by simp
  from exempt_loop_total [OF this typed, of fm "[]" False d]
  obtain out ex' cur' where
    run: "exempt_loop fm rs ([], False, []) (map JStr d) = Inr (out, ex', cur')"
    by (metis prod_cases3)
  from exempt_loop_subseq [OF run] have "subseq out (map JStr d)" by simp
  from subseq_of_map [OF this] obtain ys where "out = map JStr ys" "subseq ys d" by blast
  with run show ?thesis by (intro exI [of _ ys]) (simp add: apply_exemptions_lines)
qed

theorem apply_exemptions_subsequence_witness:
  "apply_exemptions glob
     (JList (map JStr [''snmp-server host'', '' community public'', '' location lab'', ''!'']))
     (JObj [(''snmp-server *'', JList [JStr ''community *''])])
   = Inr (JList (map JStr [''snmp-server host'', '' location lab'', ''!'']))
   \<and> subseq [''snmp-server host'', '' location lab'', ''!'']
        [''snmp-server host'', '' community public'', '' location lab'', ''!'']"
proof -
  let ?d = "[''snmp-server host'', '' community public'', '' location lab'', ''!'']"
  let ?rs = "[(''snmp-server *'', JList [JStr ''community *''])]"
  let ?out = "[''snmp-server host'', '' location lab'', ''!'']"
  have typed: "str_patterns ?rs" by code_simp
  from apply_exemptions_subsequence [OF typed, of glob ?d] obtain ys where
    res: "apply_exemptions glob (JList (map JStr ?d)) (JObj ?rs) = Inr (JList (map JStr ys))"
    and sub: "subseq ys ?d" by blast
  have run: "apply_exemptions glob (JList (map JStr ?d)) (JObj ?rs) = Inr (JList (map JStr ?out))"
    by code_simp
  from res run have "map JStr ys = map JStr ?out" by simp
  then have "ys = ?out" by (auto simp add: map_eq_Cons_conv)
  with sub run show ?thesis by simp
qed

subsection \<open>The type guard\<close>

text \<open>
  Claim C10. When the first argument is not a list, or the second is not a dict, the filter
  returns its first argument as it is: nothing is filtered and nothing is raised.
\<close>

theorem apply_exemptions_type_guard:
  "\<not> is_list config_list \<or> \<not> is_dict exemption_rules \<Longrightarrow>
   apply_exemptions fm config_list exemption_rules = Inr config_list"
  by (simp add: apply_exemptions_def)

theorem apply_exemptions_type_guard_witness:
  "apply_exemptions glob (JStr ''interface Gi1'') (JObj [(''interface *'', JStr ''*'')])
     = Inr (JStr ''interface Gi1'')
   \<and> apply_exemptions glob (JList [JStr ''interface Gi1'']) (JList [JStr ''interface *''])
     = Inr (JList [JStr ''interface Gi1''])"
proof -
  have a: "\<not> is_list (JStr ''interface Gi1'') \<or> \<not> is_dict (JObj [(''interface *'', JStr ''*'')])"
    by (simp add: is_list_def)
  have b: "\<not> is_list (JList [JStr ''interface Gi1'']) \<or> \<not> is_dict (JList [JStr ''interface *''])"
    by (simp add: is_dict_def)
  from apply_exemptions_type_guard [OF a, of glob] apply_exemptions_type_guard [OF b, of glob]
  show ?thesis by simp
qed

subsection \<open>Header rules: the first match decides\<close>

text \<open>
  Claim C7. On a header line the rule set is scanned in its declared order and the first
  entry whose pattern matches the line decides: with entries \<open>pre\<close> that do not match
  and an entry \<open>(p, v)\<close> that does, the scan, and the whole loop iteration on that line,
  are what they are for the rule set holding \<open>(p, v)\<close> alone. The entries after it
  (\<open>post\<close>) are not consulted: they can be replaced by anything.
\<close>

theorem first_matching_rule_wins:
  "list_all (\<lambda>(q, w). \<not> fm line q) pre \<Longrightarrow> fm line p \<Longrightarrow>
   match_block fm line (pre @ (p, v) # post) = match_block fm line [(p, v)]
   \<and> loop_body fm (pre @ (p, v) # post) st (JStr line) = loop_body fm [(p, v)] st (JStr line)"
proof -
  assume pre: "list_all (\<lambda>(q, w). \<not> fm line q) pre" and hit: "fm line p"
  from hit have "match_block fm line ((p, v) # post) = match_block fm line [(p, v)]"
    by simp
  with match_block_first [where fm = fm and line = line, OF pre, of "(p, v) # post"]
  have scan: "match_block fm line (pre @ (p, v) # post) = match_block fm line [(p, v)]"
    by simp
  show ?thesis
    by (cases st) (simp add: loop_body_def scan del: match_block.simps cong: if_cong)
qed

theorem first_matching_rule_wins_witness:
  "match_block glob ''interface Gi1''
     [(''hostname *'', JStr ''*''), (''interface *'', JList [JStr ''description *'']),
      (''interface Gi*'', JStr ''*'')]
   = (False, [JStr ''description *''])
   \<and> loop_body glob
       [(''hostname *'', JStr ''*''), (''interface *'', JList [JStr ''description *'']),
        (''interface Gi*'', JStr ''*'')]
       ([], False, []) (JStr ''interface Gi1'')
   = Inr ([JStr ''interface Gi1''], False, [JStr ''description *''])"
proof -
  have pre: "list_all (\<lambda>(q, w). \<not> glob ''interface Gi1'' q) [(''hostname *'', JStr ''*'')]"
    by code_simp
  have hit: "glob ''interface Gi1'' ''interface *''" by code_simp
  have one: "match_block glob ''interface Gi1'' [(''interface *'', JList [JStr ''description *''])]
      = (False, [JStr ''description *''])"
    by code_simp
  have body: "loop_body glob [(''interface *'', JList [JStr ''description *''])]
      ([], False, []) (JStr ''interface Gi1'')
      = Inr ([JStr ''interface Gi1''], False, [JStr ''description *''])"
    by code_simp
  from first_matching_rule_wins [where fm = glob and line = "''interface Gi1''", OF pre hit,
      of "JList [JStr ''description *'']" "[(''interface Gi*'', JStr ''*'')]" "([], False, [])"]
    one body
  show ?thesis by simp
qed

subsection \<open>Header lines and their own line rules\<close>

text \<open>
  Claim C4, as stated, fails: the line rules installed by a header are applied to the header
  line itself (lines 60 to 69 run for every line that was not skipped). Here the rule
  \<open>{"ntp server *": ["ntp server *"]}\<close> selects a list for the header
  \<open>ntp server 10.0.0.1\<close>, and the header is not in the output.
\<close>

theorem header_removed_by_own_line_rules:
  "match_block glob ''ntp server 10.0.0.1'' [(''ntp server *'', JList [JStr ''ntp server *''])]
     = (False, [JStr ''ntp server *''])
   \<and> apply_exemptions glob
       (JList [JStr ''ntp server 10.0.0.1'', JStr ''hostname sw1''])
       (JObj [(''ntp server *'', JList [JStr ''ntp server *''])])
     = Inr (JList [JStr ''hostname sw1''])"
  by code_simp

text \<open>
  Claim C4, amended. For a header line reached outside an exempt block whose first matching
  entry is a list of line patterns, the iteration sets the active line rules to that list,
  and it appends the header line to the output unless the stripped header matches one of
  the patterns of that list; in that case the header is left out.
\<close>

theorem header_with_line_rules:
  "\<not> startswith line '' '' \<Longrightarrow> list_all (\<lambda>(q, w). \<not> fm line q) pre \<Longrightarrow> fm line p \<Longrightarrow>
   loop_body fm (pre @ (p, JList (map JStr pats)) # post) (filtered_config, False, cur) (JStr line)
   = Inr (if list_ex (fm (strip line)) pats then filtered_config
          else filtered_config @ [JStr line],
          False, map JStr pats)"
proof -
  assume hdr: "\<not> startswith line '' ''"
    and pre: "list_all (\<lambda>(q, w). \<not> fm line q) pre" and hit: "fm line p"
  from hit match_block_first [where fm = fm and line = line, OF pre,
      of "(p, JList (map JStr pats)) # post"]
  have "match_block fm line (pre @ (p, JList (map JStr pats)) # post) = (False, map JStr pats)"
    by simp
  with hdr show ?thesis by (simp add: loop_body_header line_exempt_map)
qed

theorem header_with_line_rules_witness:
  "loop_body glob
     [(''interface *'', JStr ''*''), (''snmp-server *'', JList (map JStr [''community *'']))]
     ([JStr ''hostname sw1''], False, []) (JStr ''snmp-server host'')
   = Inr ([JStr ''hostname sw1'', JStr ''snmp-server host''], False, map JStr [''community *''])
   \<and> loop_body glob
     [(''interface *'', JStr ''*''), (''ntp server *'', JList (map JStr [''ntp server *'']))]
     ([JStr ''hostname sw1''], False, []) (JStr ''ntp server 10.0.0.1'')
   = Inr ([JStr ''hostname sw1''], False, map JStr [''ntp server *''])"
proof -
  have h1: "\<not> startswith ''snmp-server host'' '' ''" by code_simp
  have p1: "list_all (\<lambda>(q, w). \<not> glob ''snmp-server host'' q) [(''interface *'', JStr ''*'')]"
    by code_simp
  have m1: "glob ''snmp-server host'' ''snmp-server *''" by code_simp
  have e1: "\<not> list_ex (glob (strip ''snmp-server host'')) [''community *'']" by code_simp
  have h2: "\<not> startswith ''ntp server 10.0.0.1'' '' ''" by code_simp
  have p2: "list_all (\<lambda>(q, w). \<not> glob ''ntp server 10.0.0.1'' q) [(''interface *'', JStr ''*'')]"
    by code_simp
  have m2: "glob ''ntp server 10.0.0.1'' ''ntp server *''" by code_simp
  have e2: "list_ex (glob (strip ''ntp server 10.0.0.1'')) [''ntp server *'']" by code_simp
  from header_with_line_rules [where fm = glob and line = "''snmp-server host''", OF h1 p1 m1,
      of "[''community *'']" "[]" "[JStr ''hostname sw1'']" "[]"]
    header_with_line_rules [where fm = glob and line = "''ntp server 10.0.0.1''", OF h2 p2 m2,
      of "[''ntp server *'']" "[]" "[JStr ''hostname sw1'']" "[]"]
    e1 e2
  show ?thesis by simp
qed

subsection \<open>Applying the filter twice\<close>

text \<open>
  Claim C1, as stated, fails. With the rules
  \<open>{"snmp-server *": ["community *"], "interface *": "*"}\<close> the first pass drops the
  exempt interface block up to its terminator; the indented line after the terminator is
  met with no active line rules and is kept. In the output that line follows the
  \<open>snmp-server\<close> header, whose line rules remove it in a second pass.
\<close>

theorem apply_exemptions_twice_differs:
  "apply_exemptions glob
     (JList [JStr ''snmp-server host'', JStr ''interface Gi1'', JStr '' description x'',
             JStr ''!'', JStr '' community public''])
     (JObj [(''snmp-server *'', JList [JStr ''community *'']), (''interface *'', JStr ''*'')])
   = Inr (JList [JStr ''snmp-server host'', JStr '' community public''])
   \<and> apply_exemptions glob
     (JList [JStr ''snmp-server host'', JStr '' community public''])
     (JObj [(''snmp-server *'', JList [JStr ''community *'']), (''interface *'', JStr ''*'')])
   = Inr (JList [JStr ''snmp-server host''])"
  by code_simp

lemma kept_again_Nil: "kept_again fm rs cur []"
  by (auto simp add: kept_again_def)

lemma kept_again_Cons:
  "(\<And>acc. loop_body fm rs (acc, False, cur) y = Inr (acc @ [y], False, e)) \<Longrightarrow>
   kept_again fm rs e ys \<Longrightarrow> kept_again fm rs cur (y # ys)"
  unfolding kept_again_def
proof
  fix acc
  assume step: "\<And>acc. loop_body fm rs (acc, False, cur) y = Inr (acc @ [y], False, e)"
    and rest: "\<forall>acc. \<exists>ex2 cur2. exempt_loop fm rs (acc, False, e) ys = Inr (acc @ ys, ex2, cur2)"
  from rest obtain ex2 cur2 where
    "exempt_loop fm rs (acc @ [y], False, e) ys = Inr ((acc @ [y]) @ ys, ex2, cur2)" by blast
  with step [of acc]
  show "\<exists>ex2 cur2. exempt_loop fm rs (acc, False, cur) (y # ys) = Inr (acc @ y # ys, ex2, cur2)"
    by simp
qed

text \<open>A header line resets the line rules, so the rules active before it do not matter.\<close>

lemma header_resets:
  "(case d of [] \<Rightarrow> True | n # _ \<Rightarrow> \<not> startswith n '' '') \<Longrightarrow>
   exempt_loop fm rs (acc, False, c) (map JStr d) = Inr (acc', ex', cur') \<Longrightarrow>
   \<exists>ex2 cur2. exempt_loop fm rs (acc, False, c') (map JStr d) = Inr (acc', ex2, cur2)"
  by (cases d) (auto simp add: loop_body_header)

text \<open>
  The invariant of the first pass: what it appends from any state is kept by a second pass
  that starts with the same line rules; what it appends from inside an exempt block starts
  at a header, so a second pass keeps it from any line rules.
\<close>

lemma second_pass_keeps:
  "terminators_precede_headers d \<Longrightarrow> list_all (\<lambda>l. \<not> self_exempt fm rs l) d \<Longrightarrow>
   exempt_loop fm rs (acc, ex, cur) (map JStr d) = Inr (acc', ex', cur') \<Longrightarrow>
   \<exists>ys. acc' = acc @ ys \<and>
     (if ex then \<forall>c. kept_again fm rs c ys else kept_again fm rs cur ys)"
proof (induction d arbitrary: acc ex cur ex' cur')
  case Nil
  then show ?case by (simp add: kept_again_Nil)
next
  case (Cons l d)
  from Cons.prems(1) have ok: "terminators_precede_headers d" by simp
  from Cons.prems(2) have ns: "list_all (\<lambda>l. \<not> self_exempt fm rs l) d"
    and nsl: "\<not> self_exempt fm rs l" by simp_all
  note IH = Cons.IH [OF ok ns]
  show ?case
  proof (cases ex)
    case True
    show ?thesis
    proof (cases "strip l = ''!''")
      case bang: True
      with Cons.prems(1) have nxt: "case d of [] \<Rightarrow> True | n # _ \<Rightarrow> \<not> startswith n '' ''"
        by simp
      from Cons.prems(3) True bang
      have run: "exempt_loop fm rs (acc, False, cur) (map JStr d) = Inr (acc', ex', cur')"
        by (simp add: loop_body_exempt)
      have "\<exists>ys. acc' = acc @ ys \<and> kept_again fm rs c ys" for c
      proof -
        from header_resets [OF nxt run, of c] obtain ex2 cur2 where
          "exempt_loop fm rs (acc, False, c) (map JStr d) = Inr (acc', ex2, cur2)" by blast
        from IH [OF this] show ?thesis by simp
      qed
      then have "\<forall>c. \<exists>ys. acc' = acc @ ys \<and> kept_again fm rs c ys" by blast
      then have "\<exists>ys. acc' = acc @ ys \<and> (\<forall>c. kept_again fm rs c ys)"
        by (metis same_append_eq)
      with True show ?thesis by simp
    next
      case False
      with Cons.prems(3) True
      have "exempt_loop fm rs (acc, True, cur) (map JStr d) = Inr (acc', ex', cur')"
        by (simp add: loop_body_exempt)
      from IH [OF this] True show ?thesis by simp
    qed
  next
    case nex: False
    obtain b e where
      mb: "(if \<not> startswith l '' '' then match_block fm l rs else (False, cur)) = (b, e)"
      by (cases "if \<not> startswith l '' '' then match_block fm l rs else (False, cur)")
    show ?thesis
    proof (cases b)
      case True
      with mb have hdr: "\<not> startswith l '' ''" and m: "match_block fm l rs = (True, e)"
        by (auto split: if_splits)
      with Cons.prems(3) nex
      have "exempt_loop fm rs (acc, True, e) (map JStr d) = Inr (acc', ex', cur')"
        by (simp add: loop_body_header)
      from IH [OF this] nex show ?thesis by auto
    next
      case False
      have body: "loop_body fm rs (a, False, cur) (JStr l) =
          (case line_exempt fm (strip l) e of
             Inl x \<Rightarrow> Inl x
           | Inr b \<Rightarrow> Inr (if b then a else a @ [JStr l], False, e))" for a
        using mb False
        by (cases "startswith l '' ''") (simp_all add: loop_body_header loop_body_inner)
      show ?thesis
      proof (cases "line_exempt fm (strip l) e")
        case (Inl x)
        with Cons.prems(3) nex body [of acc] show ?thesis by simp
      next
        case (Inr drop)
        show ?thesis
        proof (cases drop)
          case True
          with Inr mb False nsl have inner: "startswith l '' ''"
            by (auto simp add: self_exempt_def split: if_splits)
          with mb have "e = cur" by simp
          from Cons.prems(3) nex body [of acc] Inr True
          have "exempt_loop fm rs (acc, False, e) (map JStr d) = Inr (acc', ex', cur')" by simp
          from IH [OF this] nex \<open>e = cur\<close> show ?thesis by simp
        next
          case keep: False
          from Cons.prems(3) nex body [of acc] Inr keep
          have "exempt_loop fm rs (acc @ [JStr l], False, e) (map JStr d) = Inr (acc', ex', cur')"
            by simp
          from IH [OF this] obtain ys where
            ys: "acc' = (acc @ [JStr l]) @ ys" "kept_again fm rs e ys"
            by auto
          have "kept_again fm rs cur (JStr l # ys)"
            using body Inr keep ys(2) by (intro kept_again_Cons [where e = e]) simp_all
          with ys(1) nex show ?thesis by simp
        qed
      qed
    qed
  qed
qed

text \<open>
  Claim C1, amended. The filter is idempotent on every document whose block terminators are
  followed by headers (each line that strips to \<open>!\<close> is the last line or is followed by a
  line with no leading space), for every rule set (its list entries holding strings) that
  removes no header line of the document through the header's own line patterns: the first
  pass returns, and the filter applied to its output with the same rule set returns that
  output unchanged.
\<close>

theorem apply_exemptions_idempotent:
  "str_patterns rs \<Longrightarrow> terminators_precede_headers d \<Longrightarrow>
   list_all (\<lambda>l. \<not> self_exempt fm rs l) d \<Longrightarrow>
   \<exists>out. apply_exemptions fm (JList (map JStr d)) (JObj rs) = Inr out
       \<and> apply_exemptions fm out (JObj rs) = Inr out"
proof -
  assume typed: "str_patterns rs" and ok: "terminators_precede_headers d"
    and ns: "list_all (\<lambda>l. \<not> self_exempt fm rs l) d"
  have "list_all is_str []" by simp
  from exempt_loop_total [OF this typed, of fm "[]" False d]
  obtain out ex' cur' where
    run: "exempt_loop fm rs ([], False, []) (map JStr d) = Inr (out, ex', cur')"
    by (metis prod_cases3)
  from second_pass_keeps [OF ok ns run] have "kept_again fm rs [] out" by simp
  then obtain ex2 cur2 where
    again: "exempt_loop fm rs ([], False, []) out = Inr (out, ex2, cur2)"
    unfolding kept_again_def by (metis append_Nil)
  from run again show ?thesis
    by (intro exI [of _ "JList out"]) (simp add: apply_exemptions_lines)
qed

theorem apply_exemptions_idempotent_witness:
  "apply_exemptions glob
     (JList (map JStr [''snmp-server host'', '' community public'', '' location lab'', ''!'',
                       ''interface Gi1'', '' description x'', ''!'', ''hostname sw1'']))
     (JObj [(''snmp-server *'', JList [JStr ''community *'']), (''interface *'', JStr ''*'')])
   = Inr (JList (map JStr [''snmp-server host'', '' location lab'', ''!'', ''hostname sw1'']))
   \<and> apply_exemptions glob
     (JList (map JStr [''snmp-server host'', '' location lab'', ''!'', ''hostname sw1'']))
     (JObj [(''snmp-server *'', JList [JStr ''community *'']), (''interface *'', JStr ''*'')])
   = Inr (JList (map JStr [''snmp-server host'', '' location lab'', ''!'', ''hostname sw1'']))"
proof -
  let ?d = "[''snmp-server host'', '' community public'', '' location lab'', ''!'',
             ''interface Gi1'', '' description x'', ''!'', ''hostname sw1'']"
  let ?rs = "[(''snmp-server *'', JList [JStr ''community *'']), (''interface *'', JStr ''*'')]"
  let ?out = "JList (map JStr [''snmp-server host'', '' location lab'', ''!'', ''hostname sw1''])"
  have typed: "str_patterns ?rs" by code_simp
  have ok: "terminators_precede_headers ?d" by code_simp
  have ns: "list_all (\<lambda>l. \<not> self_exempt glob ?rs l) ?d" by code_simp
  from apply_exemptions_idempotent [where fm = glob, OF typed ok ns] obtain out where
    first: "apply_exemptions glob (JList (map JStr ?d)) (JObj ?rs) = Inr out"
    and second: "apply_exemptions glob out (JObj ?rs) = Inr out" by blast
  have run: "apply_exemptions glob (JList (map JStr ?d)) (JObj ?rs) = Inr ?out" by code_simp
  with first have "out = ?out" by simp
  with first second show ?thesis by simp
qed

section \<open>Properties of the comparison\<close>

subsection \<open>Equality of parsed documents\<close>

lemma py_eq_items_iff:
  "py_eq_items xs ys \<longleftrightarrow> (\<forall>(k, v)\<in>set xs. \<exists>w. map_of ys k = Some w \<and> py_eq v w)"
  by (induction xs) (auto split: option.splits)

lemma py_eq_list_iff: "py_eq_list xs ys \<longleftrightarrow> list_all2 py_eq xs ys"
  by (induction xs arbitrary: ys) (auto split: list.splits simp add: list_all2_Cons1)

lemma dict_ok_list_iff: "dict_ok_list xs \<longleftrightarrow> (\<forall>x\<in>set xs. dict_ok x)"
  by (induction xs) auto

lemma dict_ok_items_iff: "dict_ok_items kvs \<longleftrightarrow> (\<forall>(k, v)\<in>set kvs. dict_ok v)"
  by (induction kvs) auto

lemma py_eq_refl: "dict_ok a \<Longrightarrow> py_eq a a"
proof (induction a)
  case (JList xs)
  then have "list_all2 py_eq xs xs"
    by (auto simp add: dict_ok_list_iff list_all2_same)
  then show ?case by (simp add: py_eq_list_iff)
next
  case (JObj kvs)
  have "\<exists>w. map_of kvs k = Some w \<and> py_eq v w" if "(k, v) \<in> set kvs" for k v
  proof -
    from JObj.prems that have "map_of kvs k = Some v" by simp
    moreover from JObj.prems that have "dict_ok v" by (auto simp add: dict_ok_items_iff)
    with JObj.IH that have "py_eq v v" by fastforce
    ultimately show ?thesis by simp
  qed
  then show ?case by (auto simp add: py_eq_items_iff)
qed simp_all

lemma reordered_py_eq: "reordered a b \<Longrightarrow> dict_ok a \<Longrightarrow> py_eq a b"
proof (induction rule: reordered.induct)
  case (same a)
  then show ?case by (rule py_eq_refl)
next
  case (in_list xs ys)
  from in_list.prems have "\<forall>x\<in>set xs. dict_ok x" by (simp add: dict_ok_list_iff)
  with in_list.IH have "list_all2 py_eq xs ys"
    by (auto elim!: list.rel_mono_strong)
  then show ?case by (simp add: py_eq_list_iff)
next
  case (in_dict xs zs ys)
  from in_dict.prems have dk: "distinct (map fst xs)" and ok: "\<forall>(k, v)\<in>set xs. dict_ok v"
    by (simp_all add: dict_ok_items_iff)
  from in_dict.IH have keys: "map fst xs = map fst zs"
    by (induction rule: list_all2_induct) auto
  from in_dict.IH have len: "length xs = length zs" by (rule list_all2_lengthD)
  from in_dict.hyps have "mset (map fst ys) = mset (map fst zs)" by simp
  with dk keys have dy: "distinct (map fst ys)" by (metis mset_eq_imp_distinct_iff)
  from in_dict.hyps have sets: "set ys = set zs" by (rule mset_eq_setD)
  from in_dict.hyps len have leny: "length xs = length ys" by (metis mset_eq_length)
  have "\<exists>w. map_of ys k = Some w \<and> py_eq v w" if mem: "(k, v) \<in> set xs" for k v
  proof -
    from mem obtain i where i: "i < length xs" "xs ! i = (k, v)"
      by (auto simp add: in_set_conv_nth)
    with in_dict.IH have rel: "fst (zs ! i) = k" "dict_ok v \<longrightarrow> py_eq v (snd (zs ! i))"
      by (auto dest: list_all2_nthD)
    from ok mem have "dict_ok v" by auto
    with rel have "py_eq v (snd (zs ! i))" by simp
    moreover from i len sets rel(1) have "(k, snd (zs ! i)) \<in> set ys"
      by (metis nth_mem prod.collapse)
    with dy have "map_of ys k = Some (snd (zs ! i))" by simp
    ultimately show ?thesis by simp
  qed
  with leny show ?case by (auto simp add: py_eq_items_iff)
qed

text \<open>
  Claim C8. For every well-formed document \<open>a\<close> and every representation \<open>b\<close> of it that
  differs at most in the insertion order of object keys (at any depth; \<open>b = a\<close> included),
  the comparison reports a match: it returns False and renders no diff.
\<close>

theorem compare_reordered_match:
  "dict_ok a \<Longrightarrow> reordered a b \<Longrightarrow>
   compare_configs a b simplified from_file to_file = Match"
  by (simp add: compare_configs_def reordered_py_eq)

theorem compare_reordered_match_witness:
  "compare_configs
     (JObj [(''hostname'', JStr ''sw1''),
            (''config'', JObj [(''vlan'', JList [JInt 10, JInt 20]), (''mtu'', JNull)])])
     (JObj [(''hostname'', JStr ''sw1''),
            (''config'', JObj [(''vlan'', JList [JInt 10, JInt 20]), (''mtu'', JNull)])])
     False ''template.json'' ''live_config.json'' = Match
   \<and> compare_configs
     (JObj [(''hostname'', JStr ''sw1''),
            (''config'', JObj [(''vlan'', JList [JInt 10, JInt 20]), (''mtu'', JNull)])])
     (JObj [(''config'', JObj [(''mtu'', JNull), (''vlan'', JList [JInt 10, JInt 20])]),
            (''hostname'', JStr ''sw1'')])
     False ''template.json'' ''live_config.json'' = Match"
proof -
  let ?inner = "JObj [(''vlan'', JList [JInt 10, JInt 20]), (''mtu'', JNull)]"
  let ?inner' = "JObj [(''mtu'', JNull), (''vlan'', JList [JInt 10, JInt 20])]"
  let ?a = "JObj [(''hostname'', JStr ''sw1''), (''config'', ?inner)]"
  let ?b = "JObj [(''config'', ?inner'), (''hostname'', JStr ''sw1'')]"
  have ok: "dict_ok ?a" by simp
  have same: "reordered ?a ?a" by (rule reordered.same)
  have inner: "reordered ?inner ?inner'"
    by (rule reordered.in_dict [where zs = "[(''vlan'', JList [JInt 10, JInt 20]), (''mtu'', JNull)]"])
       (simp_all add: reordered.same)
  have other: "reordered ?a ?b"
    by (rule reordered.in_dict [where zs = "[(''hostname'', JStr ''sw1''), (''config'', ?inner')]"])
       (simp_all add: reordered.same inner)
  from compare_reordered_match [OF ok same, of False "''template.json''" "''live_config.json''"]
    compare_reordered_match [OF ok other, of False "''template.json''" "''live_config.json''"]
  show ?thesis by simp
qed


subsection \<open>The diff: the longest match of a window lies inside it\<close>

lemma scan_row_inv:
  assumes "alo \<le> i" "i < ahi"
    and "\<forall>j. j2len j \<le> i - alo \<and> j2len j \<le> Suc j - blo"
    and "in_window alo ahi blo bhi best"
    and "\<forall>j. new j \<le> Suc i - alo \<and> new j \<le> Suc j - blo"
    and "scan_row i blo bhi j2len js (best, new) = (best', new')"
  shows "in_window alo ahi blo bhi best' \<and> (\<forall>j. new' j \<le> Suc i - alo \<and> new' j \<le> Suc j - blo)"
  using assms(4-6)
proof (induction js arbitrary: best new)
  case Nil
  then show ?case by simp
next
  case (Cons j js)
  show ?case
  proof (cases "j < blo")
    case True
    with Cons.prems have "scan_row i blo bhi j2len js (best, new) = (best', new')" by simp
    from Cons.IH [OF Cons.prems(1,2) this] show ?thesis .
  next
    case lo: False
    show ?thesis
    proof (cases "bhi \<le> j")
      case True
      with lo Cons.prems show ?thesis by simp
    next
      case hi: False
      define k where "k = (if j = 0 then 0 else j2len (j - 1)) + 1"
      have k1: "k \<le> Suc i - alo"
      proof -
        from assms(3) have "j2len (j - 1) \<le> i - alo" by blast
        moreover from assms(1) have "Suc i - alo = Suc (i - alo)" by (rule Suc_diff_le)
        ultimately show ?thesis by (simp add: k_def)
      qed
      have k2: "k \<le> Suc j - blo"
      proof (cases "j = 0")
        case True
        with lo show ?thesis by (simp add: k_def)
      next
        case False
        with assms(3) have "j2len (j - 1) \<le> Suc (j - 1) - blo" by blast
        with False lo show ?thesis by (simp add: k_def)
      qed
      have kpos: "0 < k" by (simp add: k_def)
      let ?best = "if snd (snd best) < k then (Suc i - k, Suc j - k, k) else best"
      from Cons.prems(3)
      have run: "scan_row i blo bhi j2len js (?best, new(j := k)) = (best', new')"
        unfolding scan_row.simps Let_def k_def [symmetric] using lo hi by (simp only: if_False)
      have b: "in_window alo ahi blo bhi ?best"
        using Cons.prems(1) k1 k2 kpos assms(1,2) lo hi by (auto simp add: in_window_def)
      have n: "\<forall>j'. (new(j := k)) j' \<le> Suc i - alo \<and> (new(j := k)) j' \<le> Suc j' - blo"
        using Cons.prems(2) k1 k2 by auto
      from Cons.IH [OF b n run] show ?thesis .
    qed
  qed
qed



lemma scan_rows_inv:
  assumes "alo \<le> i"
    and "\<forall>j. j2len j \<le> i - alo \<and> j2len j \<le> Suc j - blo"
    and "in_window alo ahi blo bhi best"
  shows "in_window alo ahi blo bhi (scan_rows a b ahi blo bhi i (best, j2len))"
  using assms
proof (induction a b ahi blo bhi i "(best, j2len)" arbitrary: best j2len rule: scan_rows.induct)
  case (1 a b ahi blo bhi i best j2len)
  show ?case
  proof (cases "i < ahi")
    case False
    then have "scan_rows a b ahi blo bhi i (best, j2len) = best"
      by (subst scan_rows.simps) simp
    with "1.prems" show ?thesis by simp
  next
    case True
    obtain best1 new1 where
      row: "scan_row i blo bhi j2len (b2j b (a ! i)) (best, \<lambda>j. 0) = (best1, new1)"
      by (cases "scan_row i blo bhi j2len (b2j b (a ! i)) (best, \<lambda>j. 0)")
    have z: "\<forall>j. (\<lambda>j. 0 :: nat) j \<le> Suc i - alo \<and> (\<lambda>j. 0 :: nat) j \<le> Suc j - blo" by simp
    from scan_row_inv [OF "1.prems"(1) True "1.prems"(2) "1.prems"(3) z row]
    have b1: "in_window alo ahi blo bhi best1"
      and n1: "\<forall>j. new1 j \<le> Suc i - alo \<and> new1 j \<le> Suc j - blo" by simp_all
    from "1.prems"(1) have le: "alo \<le> Suc i" by simp
    from True row have "scan_rows a b ahi blo bhi i (best, j2len)
        = scan_rows a b ahi blo bhi (Suc i) (best1, new1)"
      by (subst scan_rows.simps) simp
    with "1.hyps" [OF True row le n1 b1] show ?thesis by simp
  qed
qed


lemma extend_left_inv:
  "in_window alo ahi blo bhi (i, j, k) \<Longrightarrow>
   in_window alo ahi blo bhi (extend_left a b alo blo (i, j, k))"
proof (induction a b alo blo "(i, j, k)" arbitrary: i j k rule: extend_left.induct)
  case (1 a b alo blo besti bestj bestsize)
  show ?case
  proof (cases "alo < besti \<and> blo < bestj \<and> a ! (besti - 1) = b ! (bestj - 1)")
    case True
    with "1.prems" have "in_window alo ahi blo bhi (besti - 1, bestj - 1, bestsize + 1)"
      by (auto simp add: in_window_def split: if_splits)
    moreover have "extend_left a b alo blo (besti, bestj, bestsize)
        = extend_left a b alo blo (besti - 1, bestj - 1, bestsize + 1)"
      using True by (subst extend_left.simps) simp
    ultimately show ?thesis using "1.hyps" [OF True] by simp
  next
    case False
    then have "extend_left a b alo blo (besti, bestj, bestsize) = (besti, bestj, bestsize)"
      by (subst extend_left.simps) auto
    with "1.prems" show ?thesis by simp
  qed
qed

lemma extend_right_inv:
  "in_window alo ahi blo bhi (i, j, k) \<Longrightarrow>
   in_window alo ahi blo bhi (extend_right a b ahi bhi (i, j, k))"
proof (induction a b ahi bhi "(i, j, k)" arbitrary: i j k rule: extend_right.induct)
  case (1 a b ahi bhi besti bestj bestsize)
  show ?case
  proof (cases "besti + bestsize < ahi \<and> bestj + bestsize < bhi
      \<and> a ! (besti + bestsize) = b ! (bestj + bestsize)")
    case True
    with "1.prems" have "in_window alo ahi blo bhi (besti, bestj, bestsize + 1)"
      by (auto simp add: in_window_def split: if_splits)
    moreover have "extend_right a b ahi bhi (besti, bestj, bestsize)
        = extend_right a b ahi bhi (besti, bestj, bestsize + 1)"
      using True by (subst extend_right.simps) simp
    ultimately show ?thesis using "1.hyps" [OF True] by simp
  next
    case False
    then have "extend_right a b ahi bhi (besti, bestj, bestsize) = (besti, bestj, bestsize)"
      by (subst extend_right.simps) auto
    with "1.prems" show ?thesis by simp
  qed
qed

lemma find_longest_match_in_window:
  "in_window alo ahi blo bhi (find_longest_match a b alo ahi blo bhi)"
proof -
  obtain i0 j0 k0 where s: "scan_rows a b ahi blo bhi alo ((alo, blo, 0), \<lambda>j. 0) = (i0, j0, k0)"
    by (cases "scan_rows a b ahi blo bhi alo ((alo, blo, 0), \<lambda>j. 0)")
  have "in_window alo ahi blo bhi (scan_rows a b ahi blo bhi alo ((alo, blo, 0), \<lambda>j. 0))"
    by (rule scan_rows_inv) (simp_all add: in_window_def)
  with s have w0: "in_window alo ahi blo bhi (i0, j0, k0)" by simp
  obtain i1 j1 k1 where l: "extend_left a b alo blo (i0, j0, k0) = (i1, j1, k1)"
    by (cases "extend_left a b alo blo (i0, j0, k0)")
  from extend_left_inv [OF w0, of a b] l have w1: "in_window alo ahi blo bhi (i1, j1, k1)" by simp
  from extend_right_inv [OF w1, of a b] s l show ?thesis
    by (simp add: find_longest_match_def)
qed

lemma find_longest_match_bounds:
  assumes "find_longest_match a b alo ahi blo bhi = (i, j, k)" and "k \<noteq> 0"
  shows "alo \<le> i \<and> i + k \<le> ahi \<and> blo \<le> j \<and> j + k \<le> bhi"
  using find_longest_match_in_window [of alo ahi blo bhi a b] assms
  by (simp add: in_window_def)

lemma longest_match_found:
  "(i, j, k) = find_longest_match a b alo ahi blo bhi \<Longrightarrow> 0 < k \<Longrightarrow>
   alo \<le> i \<and> i + k \<le> ahi \<and> blo \<le> j \<and> j + k \<le> bhi"
  using find_longest_match_bounds [of a b alo ahi blo bhi i j k] by simp

termination block_list
proof (relation "measure (\<lambda>(a, b, alo, ahi, blo, bhi). ahi - alo)", goal_cases)
  case 1
  then show ?case by simp
next
  case 2
  then show ?case by (auto dest: longest_match_found)
next
  case 3
  then show ?case by (auto dest: longest_match_found)
qed

declare block_list.simps [simp del]

subsection \<open>The diff: the matching blocks form a chain\<close>






lemma matched_collapse:
  "matched (collapse (i1, j1, k1) bs) = k1 + matched bs"
  by (induction bs arbitrary: i1 j1 k1) (auto simp add: matched_def)



subsection \<open>The diff: what the opcodes remove and add\<close>



lemma removed_by_append: "removed_by a (xs @ ys) = removed_by a xs + removed_by a ys"
  by (simp add: removed_by_def)

lemma added_by_append: "added_by b (xs @ ys) = added_by b xs + added_by b ys"
  by (simp add: added_by_def)














subsection \<open>The diff: counting the lines of the listing\<close>

text \<open>
  The summary counts the lines of the listing that start with one \<open>-\<close> (or one \<open>+\<close>)
  but not with three. When no line of the first sequence starts with \<open>--\<close> and no line of
  the second with \<open>++\<close>, these are the lines that the opcodes remove and add.
\<close>

lemma removed_by_concat: "removed_by a (concat gs) = sum_list (map (removed_by a) gs)"
  by (induction gs) (simp_all add: removed_by_append, simp add: removed_by_def)

lemma added_by_concat: "added_by b (concat gs) = sum_list (map (added_by b) gs)"
  by (induction gs) (simp_all add: added_by_append, simp add: added_by_def)

lemma count_removals_append:
  "count_removals (xs @ ys) = count_removals xs + count_removals ys"
  by (simp add: count_removals_def)

lemma count_additions_append:
  "count_additions (xs @ ys) = count_additions xs + count_additions ys"
  by (simp add: count_additions_def)

lemma count_removals_concat:
  "count_removals (concat xss) = sum_list (map count_removals xss)"
  by (induction xss) (simp_all add: count_removals_append, simp add: count_removals_def)

lemma count_additions_concat:
  "count_additions (concat xss) = sum_list (map count_additions xss)"
  by (induction xss) (simp_all add: count_additions_append, simp add: count_additions_def)














subsection \<open>One extra top-level key\<close>




lemma dumps_lines_nonempty: "dumps_lines level v \<noteq> []"
  by (cases v) simp_all















section \<open>Properties of the token lifecycle\<close>

lemma post_request_result:
  "post_request post url data w =
     (fst (post url data (clock w)),
      w\<lparr>clock := snd (post url data (clock w)), posted := posted w @ [(url, data)]\<rparr>)"
  by (simp add: post_request_def split: prod.splits)

text \<open>A failed reissue returns no token, posts one request and leaves the token file alone.\<close>

lemma failed_reissue:
  "fst (post (token_url self) (reissue_payload self) (clock w)) = RequestException \<Longrightarrow>
   authenticate_new_token post self w =
     (None, w\<lparr>clock := snd (post (token_url self) (reissue_payload self) (clock w)),
              posted := posted w @ [(token_url self, reissue_payload self)]\<rparr>)"
  by (simp add: authenticate_new_token_def post_request_result)

text \<open>A failed refresh hands over to the reissue, whatever the credentials are.\<close>

lemma failed_refresh:
  "fst (post (token_url self) (refresh_payload self token) (clock w)) = RequestException \<Longrightarrow>
   refresh_token_exchange post self token w =
     authenticate_new_token post self
       (w\<lparr>clock := snd (post (token_url self) (refresh_payload self token) (clock w)),
          posted := posted w @ [(token_url self, refresh_payload self token)]\<rparr>)"
  by (simp add: refresh_token_exchange_def post_request_result)

lemma refresh_posts_first:
  "\<exists>rest. posted (snd (refresh_token_exchange post self token w)) =
     posted w @ (token_url self, refresh_payload self token) # rest"
  by (cases "fst (post (token_url self) (refresh_payload self token) (clock w))")
     (simp_all add: refresh_token_exchange_def authenticate_new_token_def post_request_result
        save_token_data_def split: response.splits)

lemma reissue_posts_once:
  "posted (snd (authenticate_new_token post self w)) =
     posted w @ [(token_url self, reissue_payload self)]"
  by (simp add: authenticate_new_token_def post_request_result save_token_data_def
      split: response.splits)

text \<open>
  Claim C2 describes a guard that \<^verbatim>\<open>_refresh_token\<close> does not have. Line 106 calls
  \<^verbatim>\<open>_authenticate_new_token\<close> without looking at the credentials (the guard of lines 60
  to 62 protects only the direct path of \<^verbatim>\<open>_get_access_token\<close>): after a failed refresh
  the reissue request is posted in every case, with whatever \<^verbatim>\<open>client_id\<close> and
  \<^verbatim>\<open>client_secret\<close> hold.
\<close>

theorem failed_refresh_always_reissues:
  "fst (post (token_url self) (refresh_payload self token) (clock w)) = RequestException \<Longrightarrow>
   posted (snd (refresh_token_exchange post self token w)) =
     posted w @ [(token_url self, refresh_payload self token),
                 (token_url self, reissue_payload self)]"
  by (simp add: failed_refresh reissue_posts_once)

text \<open>
  The failing input of claim C2: no client id and no client secret configured, a stored
  refresh token, and a transport that fails. Two requests are posted; the second is a
  client-credentials exchange that carries no credentials.
\<close>

theorem failed_refresh_always_reissues_witness:
  "posted (snd (refresh_token_exchange (\<lambda>url data t. (RequestException, t + 1))
      \<lparr>base_url = Some ''https://central'', client_id = None, client_secret = None\<rparr>
      ''R''
      \<lparr>token_file = Some \<lparr>access_token = None, refresh_token = Some ''R'',
          timestamp = None, stored_client_id = None, stored_client_secret = None\<rparr>,
        clock = 10000, posted = []\<rparr>))
   = [(''https://central/oauth2/token'',
       [(''grant_type'', Some ''refresh_token''), (''refresh_token'', Some ''R'')]),
      (''https://central/oauth2/token'',
       [(''grant_type'', Some ''client_credentials''), (''client_id'', None),
        (''client_secret'', None)])]"
proof -
  let ?post = "\<lambda>(url :: string) (data :: payload) (t :: real). (RequestException, t + 1)"
  let ?self = "\<lparr>base_url = Some ''https://central'', client_id = None, client_secret = None\<rparr>"
  let ?w = "\<lparr>token_file = Some \<lparr>access_token = None, refresh_token = Some ''R'',
          timestamp = None, stored_client_id = None, stored_client_secret = None\<rparr>,
        clock = 10000, posted = []\<rparr>"
  have fails: "fst (?post (token_url ?self) (refresh_payload ?self ''R'') (clock ?w)) = RequestException"
    by simp
  from failed_refresh_always_reissues [of ?post ?self "''R''" ?w, OF fails]
  show ?thesis
    by (simp add: token_url_def py_str_def refresh_payload_def reissue_payload_def truthy_def)
qed

text \<open>
  Claim C6. When the refresh exchange fails and the reissue exchange that follows it fails
  too, no access token is returned and the token file holds what it held before: only a
  successful exchange reaches \<^verbatim>\<open>_save_token_data\<close>.
\<close>

theorem failed_exchanges_keep_token_file:
  "fst (post (token_url self) (refresh_payload self token) (clock w)) = RequestException \<Longrightarrow>
   fst (post (token_url self) (reissue_payload self)
          (snd (post (token_url self) (refresh_payload self token) (clock w)))) = RequestException \<Longrightarrow>
   fst (refresh_token_exchange post self token w) = None
   \<and> token_file (snd (refresh_token_exchange post self token w)) = token_file w"
  by (simp add: failed_refresh failed_reissue)

theorem failed_exchanges_keep_token_file_witness:
  "fst (refresh_token_exchange (\<lambda>url data t. (RequestException, t + 1))
      \<lparr>base_url = Some ''https://central'', client_id = Some ''id'', client_secret = Some ''secret''\<rparr>
      ''R''
      \<lparr>token_file = Some \<lparr>access_token = Some ''A'', refresh_token = Some ''R'',
          timestamp = Some 1000, stored_client_id = Some ''id'',
          stored_client_secret = Some ''secret''\<rparr>,
        clock = 10000, posted = []\<rparr>) = None
   \<and> token_file (snd (refresh_token_exchange (\<lambda>url data t. (RequestException, t + 1))
      \<lparr>base_url = Some ''https://central'', client_id = Some ''id'', client_secret = Some ''secret''\<rparr>
      ''R''
      \<lparr>token_file = Some \<lparr>access_token = Some ''A'', refresh_token = Some ''R'',
          timestamp = Some 1000, stored_client_id = Some ''id'',
          stored_client_secret = Some ''secret''\<rparr>,
        clock = 10000, posted = []\<rparr>))
     = Some \<lparr>access_token = Some ''A'', refresh_token = Some ''R'',
          timestamp = Some 1000, stored_client_id = Some ''id'',
          stored_client_secret = Some ''secret''\<rparr>"
proof -
  let ?post = "\<lambda>(url :: string) (data :: payload) (t :: real). (RequestException, t + 1)"
  let ?self = "\<lparr>base_url = Some ''https://central'', client_id = Some ''id'',
      client_secret = Some ''secret''\<rparr>"
  let ?w = "\<lparr>token_file = Some \<lparr>access_token = Some ''A'', refresh_token = Some ''R'',
          timestamp = Some 1000, stored_client_id = Some ''id'',
          stored_client_secret = Some ''secret''\<rparr>,
        clock = 10000, posted = []\<rparr>"
  have r1: "fst (?post (token_url ?self) (refresh_payload ?self ''R'') (clock ?w)) = RequestException"
    by simp
  have r2: "fst (?post (token_url ?self) (reissue_payload ?self)
      (snd (?post (token_url ?self) (refresh_payload ?self ''R'') (clock ?w)))) = RequestException"
    by simp
  from failed_exchanges_keep_token_file [of ?post ?self "''R''" ?w, OF r1 r2]
  show ?thesis by simp
qed

text \<open>
  Claim C5, as stated, fails in its first half: a record that is exactly 7200 seconds old is
  not served from the cache, but a refresh is sent only when the record holds a refresh
  token. Here the record has an access token and no refresh token (as after a
  client-credentials exchange whose response carried none); the clock is 7200 seconds past
  the timestamp (both are integers, so the double subtraction is exact), and the only
  request posted is a client-credentials reissue.
\<close>

theorem stale_token_without_refresh_token:
  "(8200 :: real) - 1000 = 7200
   \<and> posted (snd (get_access_token (-)
      (\<lambda>url data t. (TokenResponse (Some ''B'') None, t + 1))
      \<lparr>base_url = Some ''https://central'', client_id = Some ''id'', client_secret = Some ''secret''\<rparr>
      \<lparr>token_file = Some \<lparr>access_token = Some ''A'', refresh_token = None,
          timestamp = Some 1000, stored_client_id = Some ''id'',
          stored_client_secret = Some ''secret''\<rparr>,
        clock = 8200, posted = []\<rparr>))
   = [(''https://central/oauth2/token'',
       [(''grant_type'', Some ''client_credentials''), (''client_id'', Some ''id''),
        (''client_secret'', Some ''secret'')])]"
  by (simp add: get_access_token_def load_token_data_def truthy_def truthy_num_def
      reissue_posts_once token_url_def py_str_def reissue_payload_def)

text \<open>
  Claim C5, amended. For a stored record with a non-empty access token and a non-zero
  timestamp, let the age be the double precision result of now - issued\_at, as line 45
  computes it. When the age is below 7200 (exactly 7199, say) the cached token is returned
  and the world is unchanged: no request is posted and nothing is written. When the age is
  7200 or more (exactly 7200 included) the cache is not used; then a refresh exchange with
  the stored refresh token is the first request posted if the record holds a non-empty
  refresh token, and no refresh exchange is posted if it holds none (the only request there
  can be is the reissue).
\<close>

theorem token_freshness_boundary:
  "token_file w = Some d \<Longrightarrow> access_token d = Some a \<Longrightarrow> a \<noteq> [] \<Longrightarrow>
   timestamp d = Some ts \<Longrightarrow> ts \<noteq> 0 \<Longrightarrow>
   (fsub (clock w) ts < 7200 \<longrightarrow> get_access_token fsub post self w = (Some a, w))
   \<and> (7200 \<le> fsub (clock w) ts \<longrightarrow>
        (\<forall>token. refresh_token d = Some token \<and> token \<noteq> [] \<longrightarrow>
           (\<exists>rest. posted (snd (get_access_token fsub post self w)) =
              posted w @ (token_url self, refresh_payload self token) # rest))
        \<and> (\<not> truthy (refresh_token d) \<longrightarrow>
             posted (snd (get_access_token fsub post self w)) = posted w
             \<or> posted (snd (get_access_token fsub post self w)) =
                posted w @ [(token_url self, reissue_payload self)]))"
proof -
  assume stored: "token_file w = Some d" and tok: "access_token d = Some a" "a \<noteq> []"
    and stamp: "timestamp d = Some ts" "ts \<noteq> 0"
  from stored have loaded: "load_token_data w = d" by (simp add: load_token_data_def)
  have fresh: "get_access_token fsub post self w = (Some a, w)" if "fsub (clock w) ts < 7200"
    using that loaded tok stamp by (simp add: get_access_token_def truthy_def truthy_num_def)
  have stale: "get_access_token fsub post self w =
      (if truthy (refresh_token d)
       then refresh_token_exchange post self
              (case refresh_token d of None \<Rightarrow> [] | Some token \<Rightarrow> token) w
       else if \<not> truthy (client_id self) \<or> \<not> truthy (client_secret self) then (None, w)
       else authenticate_new_token post self w)" if "7200 \<le> fsub (clock w) ts"
    using that loaded tok stamp by (simp add: get_access_token_def truthy_num_def)
  have refresh: "\<exists>rest. posted (snd (get_access_token fsub post self w)) =
      posted w @ (token_url self, refresh_payload self token) # rest"
    if "7200 \<le> fsub (clock w) ts" "refresh_token d = Some token" "token \<noteq> []" for token
    using that stale refresh_posts_first [of post self token w] by (simp add: truthy_def)
  have reissue: "posted (snd (get_access_token fsub post self w)) = posted w
      \<or> posted (snd (get_access_token fsub post self w)) =
         posted w @ [(token_url self, reissue_payload self)]"
    if "7200 \<le> fsub (clock w) ts" "\<not> truthy (refresh_token d)"
    using that stale reissue_posts_once [of post self w] by auto
  from fresh refresh reissue show ?thesis by blast
qed

text \<open>
  The two ages the claim names, 7199 and 7200 seconds: clock and timestamp are integers
  here, so double subtraction gives their exact difference.
\<close>

theorem token_freshness_boundary_witness:
  "get_access_token (-) (\<lambda>url data t. (TokenResponse (Some ''B'') (Some ''S''), t + 1))
      \<lparr>base_url = Some ''https://central'', client_id = Some ''id'', client_secret = Some ''secret''\<rparr>
      \<lparr>token_file = Some \<lparr>access_token = Some ''A'', refresh_token = Some ''R'',
          timestamp = Some 1000, stored_client_id = Some ''id'',
          stored_client_secret = Some ''secret''\<rparr>,
        clock = 8199, posted = []\<rparr>
   = (Some ''A'',
      \<lparr>token_file = Some \<lparr>access_token = Some ''A'', refresh_token = Some ''R'',
          timestamp = Some 1000, stored_client_id = Some ''id'',
          stored_client_secret = Some ''secret''\<rparr>,
        clock = 8199, posted = []\<rparr>)
   \<and> (\<exists>rest. posted (snd (get_access_token (-)
      (\<lambda>url data t. (TokenResponse (Some ''B'') (Some ''S''), t + 1))
      \<lparr>base_url = Some ''https://central'', client_id = Some ''id'', client_secret = Some ''secret''\<rparr>
      \<lparr>token_file = Some \<lparr>access_token = Some ''A'', refresh_token = Some ''R'',
          timestamp = Some 1000, stored_client_id = Some ''id'',
          stored_client_secret = Some ''secret''\<rparr>,
        clock = 8200, posted = []\<rparr>))
     = (''https://central/oauth2/token'',
        [(''grant_type'', Some ''refresh_token''), (''refresh_token'', Some ''R''),
         (''client_id'', Some ''id''), (''client_secret'', Some ''secret'')]) # rest)"
proof -
  let ?post = "\<lambda>(url :: string) (data :: payload) (t :: real).
      (TokenResponse (Some ''B'') (Some ''S''), t + 1)"
  let ?self = "\<lparr>base_url = Some ''https://central'', client_id = Some ''id'',
      client_secret = Some ''secret''\<rparr>"
  let ?d = "\<lparr>access_token = Some ''A'', refresh_token = Some ''R'',
          timestamp = Some 1000, stored_client_id = Some ''id'',
          stored_client_secret = Some ''secret''\<rparr>"
  let ?w1 = "\<lparr>token_file = Some ?d, clock = 8199, posted = []\<rparr>"
  let ?w2 = "\<lparr>token_file = Some ?d, clock = 8200, posted = []\<rparr>"
  have f1: "token_file ?w1 = Some ?d" and f2: "token_file ?w2 = Some ?d" by simp_all
  have a: "access_token ?d = Some ''A''" and ne: "''A'' \<noteq> []" by simp_all
  have t: "timestamp ?d = Some 1000" and nz: "(1000 :: real) \<noteq> 0" by simp_all
  from token_freshness_boundary [OF f1 a ne t nz, of "(-)" ?post ?self]
  have one: "get_access_token (-) ?post ?self ?w1 = (Some ''A'', ?w1)" by simp
  from token_freshness_boundary [OF f2 a ne t nz, of "(-)" ?post ?self]
  have two: "\<exists>rest. posted (snd (get_access_token (-) ?post ?self ?w2)) =
      posted ?w2 @ (token_url ?self, refresh_payload ?self ''R'') # rest" by simp
  from one two show ?thesis
    by (simp add: token_url_def py_str_def refresh_payload_def truthy_def)
qed

end
